theory Spec2Isabelle
  imports Complex_Main
begin

section \<open>Spinner factories of alive\_progress (animations/spinners.py)\<close>

text \<open>
  The module builds spinners in two phases. A factory function
  (\<^verbatim>\<open>frame_spinner_factory\<close>, \<^verbatim>\<open>scrolling_spinner_factory\<close>, ...) captures the style and
  returns a closure \<^verbatim>\<open>inner_factory\<close> carrying an attribute \<^verbatim>\<open>natural\<close>; calling that
  closure with an optional width returns the spinner, a callable carrying \<^verbatim>\<open>cycles\<close>
  (and \<^verbatim>\<open>players\<close> for a compound spinner) whose call starts a generator of frames.

  The embedding keeps that shape: a factory is a record of \<open>natural\<close> and the function
  \<open>inner_factory\<close>; a spinner is a value holding the generator objects its closure owns
  (the ribbon of a scrolling spinner, the players of a compound one); every call of
  \<^verbatim>\<open>next\<close> takes the object and returns the frame with the updated object.
\<close>

subsection \<open>Python values\<close>

text \<open>
  What a call can do besides returning: raise one of the exceptions below, or never
  return (\<open>NonTermination\<close>: a \<^verbatim>\<open>while True\<close> loop that never reaches a \<^verbatim>\<open>yield\<close>).
\<close>

datatype failure =
  ValueError | TypeError | IndexError | ZeroDivisionError | AttributeError | NonTermination

text \<open>Truth value of an \<^verbatim>\<open>Optional[int]\<close>: \<^verbatim>\<open>None\<close> and \<^verbatim>\<open>0\<close> are false.\<close>

definition truthy :: "int option \<Rightarrow> bool" where
  "truthy x = (case x of None \<Rightarrow> False | Some n \<Rightarrow> n \<noteq> 0)"

text \<open>\<^verbatim>\<open>x or d\<close> for an optional integer \<^verbatim>\<open>x\<close> and an integer \<^verbatim>\<open>d\<close>.\<close>

definition or_int :: "int option \<Rightarrow> int \<Rightarrow> int" where
  "or_int x d = (case x of None \<Rightarrow> d | Some n \<Rightarrow> if n \<noteq> 0 then n else d)"

text \<open>\<^verbatim>\<open>x or d\<close> for an optional string: \<^verbatim>\<open>None\<close> and the empty string are false.\<close>

definition or_str :: "string option \<Rightarrow> string \<Rightarrow> string" where
  "or_str x d = (case x of None \<Rightarrow> d | Some s \<Rightarrow> if s \<noteq> [] then s else d)"

text \<open>
  \<^verbatim>\<open>int(x)\<close> on a number: truncation towards zero. The quotient
  \<^verbatim>\<open>float(length_actual) / length\<close> is taken as the exact quotient, a real number; the rounding of
  binary64 is outside the embedding.
\<close>

definition py_int :: "real \<Rightarrow> int" where
  "py_int x = (if 0 \<le> x then \<lfloor>x\<rfloor> else \<lceil>x\<rceil>)"

text \<open>
  \<^verbatim>\<open>float(length_actual) / length if length and length_actual else 1\<close>
  (lines 58 and 101).
\<close>

definition ratio_of :: "int option \<Rightarrow> int option \<Rightarrow> real" where
  "ratio_of length' length_actual =
     (case (length', length_actual) of
        (Some l, Some a) \<Rightarrow> if l \<noteq> 0 \<and> a \<noteq> 0 then of_int a / of_int l else 1
      | _ \<Rightarrow> 1)"

text \<open>\<^verbatim>\<open>int((block or 0) * ratio) or len(chars)\<close> (lines 65, 113 and 114).\<close>

definition block_size_of :: "int option \<Rightarrow> real \<Rightarrow> string \<Rightarrow> int" where
  "block_size_of block ratio chars =
     (let b = py_int (of_int (or_int block 0) * ratio)
      in if b \<noteq> 0 then b else int (length chars))"

subsection \<open>The collaborators of animations/utils.py\<close>

text \<open>
  Modelled from the spec: the sliding window engines \<^verbatim>\<open>static_sliding_window_factory\<close> and
  \<^verbatim>\<open>overlay_sliding_window_factory\<close> of animations/utils.py are not among the sources.
  The spec (sections 4.3, 6 and the glossary) gives their contract: called with
  (background, gap, segments, width, step, initial offset) they return an endless
  producer of frames, read through a window of \<open>width\<close> cells sliding over an infinite
  tape; the cursor starts at the initial offset and moves by \<open>step\<close> per frame. The
  tape repeats, for each segment, \<open>gap\<close> cells of background followed by the segment.
  In the static engine the background cells are part of the moving tape; in the overlay
  engine the background is fixed in place and only the segments move over it.

  The generator object is the record below: the parameters and the cursor.
\<close>

record ribbon =
  rb_overlay :: bool
  rb_background :: string
  rb_gap :: int
  rb_contents :: "string list"
  rb_length :: int
  rb_step :: int
  rb_cursor :: int

definition static_sliding_window_factory ::
  "string \<Rightarrow> int \<Rightarrow> string list \<Rightarrow> int \<Rightarrow> int \<Rightarrow> int \<Rightarrow> ribbon" where
  "static_sliding_window_factory sep gap contents length' step initial =
     \<lparr>rb_overlay = False, rb_background = sep, rb_gap = gap, rb_contents = contents,
      rb_length = length', rb_step = step, rb_cursor = initial\<rparr>"

definition overlay_sliding_window_factory ::
  "string \<Rightarrow> int \<Rightarrow> string list \<Rightarrow> int \<Rightarrow> int \<Rightarrow> int \<Rightarrow> ribbon" where
  "overlay_sliding_window_factory sep gap contents length' step initial =
     \<lparr>rb_overlay = True, rb_background = sep, rb_gap = gap, rb_contents = contents,
      rb_length = length', rb_step = step, rb_cursor = initial\<rparr>"

text \<open>
  One period of the tape. A cell is \<open>Some c\<close> when it shows the character \<open>c\<close> wherever
  the window stands, and \<open>None\<close> when the fixed background shows through it.
\<close>

definition background_cell :: "string \<Rightarrow> nat \<Rightarrow> char" where
  "background_cell sep j = (if sep = [] then CHR '' '' else sep ! (j mod length sep))"

definition tape :: "ribbon \<Rightarrow> char option list" where
  "tape rb =
     concat (map (\<lambda>seg.
        (if rb_overlay rb then replicate (nat (rb_gap rb)) None
         else map (\<lambda>j. Some (background_cell (rb_background rb) j)) [0..<nat (rb_gap rb)])
        @ map Some seg) (rb_contents rb))"

definition window :: "ribbon \<Rightarrow> string" where
  "window rb =
     (let t = tape rb in
      if t = [] then []
      else map (\<lambda>j. case t ! nat ((rb_cursor rb + int j) mod int (length t)) of
                       Some c \<Rightarrow> c
                     | None \<Rightarrow> background_cell (rb_background rb) j)
               [0..<nat (rb_length rb)])"

text \<open>\<^verbatim>\<open>next(infinite_ribbon)\<close>: the frame under the window, and the cursor moved.\<close>

definition ribbon_next :: "ribbon \<Rightarrow> string \<times> ribbon" where
  "ribbon_next rb = (window rb, rb\<lparr>rb_cursor := rb_cursor rb + rb_step rb\<rparr>)"

text \<open>
  Modelled from the spec: the decorator \<^verbatim>\<open>repeating\<close> of animations/utils.py is not among
  the sources. Section 6 of the spec: it turns a frame-producing function into a
  conforming spinner, "fixing/padding every frame to exactly \<open>width\<close>", and leaves the
  function able to carry \<open>cycles\<close>. It acts on each frame of the decorated generator: a
  frame is cut, or padded with spaces, to the width; without a width (\<^verbatim>\<open>None\<close>) the
  frame passes as it is.
\<close>

definition repeating :: "int option \<Rightarrow> string \<Rightarrow> string" where
  "repeating length' text =
     (case length' of
        None \<Rightarrow> text
      | Some w \<Rightarrow> take (nat w) (text @ replicate (nat w - length text) (CHR '' '')))"

subsection \<open>Spinners and players\<close>

text \<open>
  A spinner is the closure \<^verbatim>\<open>inner_spinner\<close> with what it captured:
  \<^item> \<open>FrameI frames length_actual\<close> (lines 20 to 26);
  \<^item> \<open>ScrollI infinite_ribbon cycles\<close> (lines 61 to 82): the ribbon is created once per
    spinner, and every run of the spinner reads on from it;
  \<^item> \<open>BounceI right_scroll left_scroll right_direction_size left_direction_size cycles
    length_actual\<close> (lines 104 to 121);
  \<^item> \<open>CompoundI players cycles length_actual\<close> (lines 133 to 148).

  A player (\<^verbatim>\<open>spinner_player\<close>) owns one spinner; \<open>Player s k\<close> has read \<open>k\<close> frames of
  its current run of \<open>s\<close>.
\<close>

datatype spinner =
    FrameI "string list" "int option"
  | ScrollI ribbon int
  | BounceI spinner spinner int int int int
  | CompoundI "player list" int "int option"
and player = Player spinner nat

text \<open>The attribute \<^verbatim>\<open>cycles\<close> (lines 25, 81, 120 and 146).\<close>

fun cycles :: "spinner \<Rightarrow> int" where
  "cycles (FrameI frames length_actual) = int (length frames)"
| "cycles (ScrollI infinite_ribbon c) = c"
| "cycles (BounceI right_scroll left_scroll rds lds c length_actual) = c"
| "cycles (CompoundI ps c length_actual) = c"

text \<open>
  The number of frames one run (one call of the spinner, read to exhaustion) yields:
  all the frames (line 23), \<^verbatim>\<open>range(inner_spinner.cycles)\<close> (lines 62 and 135), and for
  the bouncing spinner the frames of each pass whose index is below the direction's
  size (lines 106 to 111).
\<close>

fun run_length :: "spinner \<Rightarrow> nat" where
  "run_length (FrameI frames length_actual) = length frames"
| "run_length (ScrollI infinite_ribbon c) = nat c"
| "run_length (BounceI right_scroll left_scroll rds lds c length_actual) =
     nat (min rds (int (run_length right_scroll))) + nat (min lds (int (run_length left_scroll)))"
| "run_length (CompoundI ps c length_actual) = nat c"

text \<open>Reading \<open>n\<close> frames of a scrolling spinner's ribbon and dropping them.\<close>

fun skip :: "nat \<Rightarrow> spinner \<Rightarrow> spinner" where
  "skip n (ScrollI infinite_ribbon c) = ScrollI (((\<lambda>rb. snd (ribbon_next rb)) ^^ n) infinite_ribbon) c"
| "skip n s = s"

fun those_list :: "'a option list \<Rightarrow> 'a list option" where
  "those_list [] = Some []"
| "those_list (x # xs) =
     (case x of
        None \<Rightarrow> None
      | Some y \<Rightarrow> (case those_list xs of None \<Rightarrow> None | Some ys \<Rightarrow> Some (y # ys)))"

text \<open>
  \<open>produce s k\<close> is the \<^verbatim>\<open>next\<close> of a run of \<open>s\<close> that has yielded \<open>k\<close> frames, for
  \<open>k < run_length s\<close>: the frame and the spinner after it. \<open>None\<close> stands for a call that
  never returns.
  \<^item> Frames: \<^verbatim>\<open>yield from frames\<close> under \<^verbatim>\<open>repeating(length_actual)\<close>.
  \<^item> Scrolling: \<^verbatim>\<open>yield next(infinite_ribbon)\<close>.
  \<^item> Bouncing: the frames of \<^verbatim>\<open>right_scroll()\<close> then of \<^verbatim>\<open>left_scroll()\<close> under
    \<^verbatim>\<open>repeating(length_actual)\<close>; the frames of a pass at and beyond its direction's
    size are read from the ribbon and dropped, here right after the last one kept.
  \<^item> Compound: \<^verbatim>\<open>zip(range(cycles), *players)\<close> takes one frame of every player, in
    order, and \<^verbatim>\<open>''.join(fills[1:])\<close> concatenates them, under
    \<^verbatim>\<open>repeating(length_actual)\<close>.

  Modelled from the spec: \<^verbatim>\<open>spinner_player\<close> of animations/utils.py is not among the
  sources. Sections 3 and 4.6 of the spec: a player wraps one spinner and turns its
  finite sequence into an unending one "by re-invoking its producer from scratch on
  exhaustion, with no gap or duplicate at the seam". \<open>player_next\<close> is its \<^verbatim>\<open>next\<close>: it
  reads on in the current run, or starts a new run when that one is exhausted; over a
  spinner whose runs are empty it starts runs forever.
\<close>

fun produce :: "spinner \<Rightarrow> nat \<Rightarrow> (string \<times> spinner) option"
and player_next :: "player \<Rightarrow> (string \<times> player) option" where
  "produce (FrameI frames length_actual) k =
     Some (repeating length_actual (frames ! k), FrameI frames length_actual)"
| "produce (ScrollI infinite_ribbon c) k =
     (let (fill, rb) = ribbon_next infinite_ribbon in Some (fill, ScrollI rb c))"
| "produce (BounceI right_scroll left_scroll rds lds c length_actual) k =
     (let rn = nat (min rds (int (run_length right_scroll)));
          ln = nat (min lds (int (run_length left_scroll)))
      in if k < rn then
           (case produce right_scroll k of
              None \<Rightarrow> None
            | Some (fill, r) \<Rightarrow>
                Some (repeating (Some length_actual) fill,
                      BounceI (if Suc k = rn then skip (run_length right_scroll - rn) r else r)
                        left_scroll rds lds c length_actual))
         else
           (case produce left_scroll (k - rn) of
              None \<Rightarrow> None
            | Some (fill, l) \<Rightarrow>
                Some (repeating (Some length_actual) fill,
                      BounceI right_scroll
                        (if Suc (k - rn) = ln then skip (run_length left_scroll - ln) l else l)
                        rds lds c length_actual)))"
| "produce (CompoundI ps c length_actual) k =
     (case those_list (map player_next ps) of
        None \<Rightarrow> None
      | Some fills \<Rightarrow>
          Some (repeating length_actual (concat (map fst fills)),
                CompoundI (map snd fills) c length_actual))"
| "player_next (Player s k) =
     (let n = run_length s; k' = (if k < n then k else 0)
      in if n = 0 then None
         else (case produce s k' of
                 None \<Rightarrow> None
               | Some (fill, s') \<Rightarrow> Some (fill, Player s' (Suc k'))))"

definition spinner_player :: "spinner \<Rightarrow> player" where
  "spinner_player s = Player s 0"

text \<open>The attribute \<^verbatim>\<open>players\<close> of a compound spinner (line 147).\<close>

fun players :: "spinner \<Rightarrow> player list" where
  "players (CompoundI ps c length_actual) = ps"
| "players s = []"

text \<open>\<open>discard n p\<close>: \<open>n\<close> calls of \<^verbatim>\<open>next\<close> on a player, the frames dropped.\<close>

fun discard :: "nat \<Rightarrow> player \<Rightarrow> player option" where
  "discard 0 p = Some p"
| "discard (Suc n) p =
     (case player_next p of None \<Rightarrow> None | Some (fill, p') \<Rightarrow> discard n p')"

text \<open>The frame a player yields at tick \<open>t\<close>: at its call number \<open>t\<close> of \<^verbatim>\<open>next\<close>, from 0.\<close>

definition frame_at :: "player \<Rightarrow> nat \<Rightarrow> string option" where
  "frame_at p t = (case discard t p of None \<Rightarrow> None | Some p' \<Rightarrow> map_option fst (player_next p'))"

subsection \<open>Factories\<close>

record factory =
  natural :: int
  inner_factory :: "int option \<Rightarrow> failure + spinner"

text \<open>
  \<^verbatim>\<open>frame_spinner_factory(*frames)\<close>, lines 8 to 32. A single argument is read as
  frames of one character each; \<^verbatim>\<open>frames[0]\<close> raises IndexError when there is no frame.
\<close>

definition frame_spinner_factory :: "string list \<Rightarrow> failure + factory" where
  "frame_spinner_factory frames =
     (let frames = (if length frames = 1 then map (\<lambda>c. [c]) (hd frames) else frames)
      in case frames of
           [] \<Rightarrow> Inl IndexError
         | first # rest \<Rightarrow>
             Inr \<lparr>natural = int (length first),
                  inner_factory = (\<lambda>length_actual. Inr (FrameI frames length_actual))\<rparr>)"

text \<open>\<^verbatim>\<open>scrolling_spinner_factory\<close>, lines 35 to 88; its \<^verbatim>\<open>inner_factory\<close>, lines 54 to 82.\<close>

definition scrolling_inner_factory ::
  "string \<Rightarrow> int option \<Rightarrow> int option \<Rightarrow> string \<Rightarrow> bool \<Rightarrow> bool \<Rightarrow> bool \<Rightarrow> int \<Rightarrow> int
   \<Rightarrow> int option \<Rightarrow> failure + spinner" where
  "scrolling_inner_factory chars length' block background right hiding overlay step natural'
     length_actual =
     (if truthy block \<and> \<not> (truthy length_actual \<or> truthy length') then Inl ValueError
      else
        let ratio = ratio_of length' length_actual;
            length_actual = or_int length_actual natural';
            block_size = block_size_of block ratio chars;
            gap = (if hiding then length_actual else max 0 (length_actual - block_size));
            initial = (if \<not> hiding \<and> right
                       then (if truthy block then - block_size
                             else \<bar>length_actual - block_size\<bar>)
                       else 0);
            contents = (if truthy block
                        then map (\<lambda>c. replicate (nat block_size) c)
                               (if right then rev chars else chars)
                        else [chars]);
            window_impl = (if overlay then overlay_sliding_window_factory
                           else static_sliding_window_factory);
            infinite_ribbon = window_impl background gap contents length_actual step initial
        in Inr (ScrollI infinite_ribbon (gap + block_size)))"

definition scrolling_spinner_factory ::
  "string \<Rightarrow> int option \<Rightarrow> int option \<Rightarrow> string option \<Rightarrow> bool \<Rightarrow> bool \<Rightarrow> bool \<Rightarrow> factory" where
  "scrolling_spinner_factory chars length' block background right hiding overlay =
     (let step = (if right then - 1 else 1);
          background = or_str background '' '';
          natural' = or_int length' (int (length chars))
      in \<lparr>natural = natural',
          inner_factory = scrolling_inner_factory chars length' block background right hiding
                            overlay step natural'\<rparr>)"

text \<open>
  \<^verbatim>\<open>bouncing_spinner_factory\<close>, lines 91 to 126. Its \<^verbatim>\<open>inner_factory\<close> calls
  \<^verbatim>\<open>scrolling_spinner_factory(right_chars, length, block=block, blank=blank, right=True,
  hiding=hiding)\<close>: two positional arguments and four keywords. Python binds the
  keywords to the parameters of the callee and raises TypeError for a keyword that is
  not one of them, before the callee's body runs.
\<close>

definition scrolling_spinner_factory_params :: "string list" where
  "scrolling_spinner_factory_params =
     [''chars'', ''length'', ''block'', ''background'', ''right'', ''hiding'', ''overlay'']"

definition accepts_keywords :: "string list \<Rightarrow> nat \<Rightarrow> string list \<Rightarrow> bool" where
  "accepts_keywords params positional keywords =
     (positional \<le> length params \<and> distinct keywords \<and>
      list_all (\<lambda>k. k \<in> set (drop positional params)) keywords)"

text \<open>
  The call of line 96 (\<open>right = True\<close> with \<open>right_chars\<close>) and of line 98
  (\<open>right = False\<close> with \<open>left_chars\<close>). Where the keywords are accepted the factory is
  built from the parameters that exist; \<open>background\<close> and \<open>overlay\<close> keep their defaults.
\<close>

definition scrolling_call ::
  "string \<Rightarrow> int \<Rightarrow> int option \<Rightarrow> string \<Rightarrow> bool \<Rightarrow> bool \<Rightarrow> failure + factory" where
  "scrolling_call chars length' block blank right hiding =
     (if accepts_keywords scrolling_spinner_factory_params 2
           [''block'', ''blank'', ''right'', ''hiding'']
      then Inr (scrolling_spinner_factory chars (Some length') block None right hiding False)
      else Inl TypeError)"

definition direction_size :: "bool \<Rightarrow> int \<Rightarrow> int \<Rightarrow> int" where
  "direction_size hiding length_actual block_size =
     (if hiding then length_actual + block_size
      else (if \<bar>length_actual - block_size\<bar> \<noteq> 0 then \<bar>length_actual - block_size\<bar> else 1))"

definition bouncing_inner_factory ::
  "string \<Rightarrow> int \<Rightarrow> int option \<Rightarrow> string \<Rightarrow> string \<Rightarrow> bool \<Rightarrow> int
   \<Rightarrow> int option \<Rightarrow> failure + spinner" where
  "bouncing_inner_factory right_chars length' block left_chars blank hiding natural'
     length_actual =
     (case scrolling_call right_chars length' block blank True hiding of
        Inl e \<Rightarrow> Inl e
      | Inr right_factory \<Rightarrow>
     (case inner_factory right_factory length_actual of
        Inl e \<Rightarrow> Inl e
      | Inr right_scroll \<Rightarrow>
     (case scrolling_call left_chars length' block blank False hiding of
        Inl e \<Rightarrow> Inl e
      | Inr left_factory \<Rightarrow>
     (case inner_factory left_factory length_actual of
        Inl e \<Rightarrow> Inl e
      | Inr left_scroll \<Rightarrow>
          let ratio = ratio_of (Some length') length_actual;
              length_actual = or_int length_actual natural';
              right_block_size = block_size_of block ratio right_chars;
              left_block_size = block_size_of block ratio left_chars;
              right_direction_size = direction_size hiding length_actual right_block_size;
              left_direction_size = direction_size hiding length_actual left_block_size
          in Inr (BounceI right_scroll left_scroll right_direction_size left_direction_size
                    (right_direction_size + left_direction_size) length_actual)))))"

text \<open>
  Line 123, \<^verbatim>\<open>left_chars = left_chars or right_chars\<close>: the characters the leftward call
  of line 98 is given.
\<close>

definition bouncing_left_chars :: "string \<Rightarrow> string option \<Rightarrow> string" where
  "bouncing_left_chars right_chars left_chars = or_str left_chars right_chars"

definition bouncing_spinner_factory ::
  "string \<Rightarrow> int \<Rightarrow> int option \<Rightarrow> string option \<Rightarrow> string \<Rightarrow> bool \<Rightarrow> factory" where
  "bouncing_spinner_factory right_chars length' block left_chars blank hiding =
     (let left_chars = bouncing_left_chars right_chars left_chars
      in \<lparr>natural = length',
          inner_factory = bouncing_inner_factory right_chars length' block left_chars blank
                            hiding length'\<rparr>)"

text \<open>\<^verbatim>\<open>compound_spinner_factory\<close>, lines 129 to 152.\<close>

text \<open>
  \<^verbatim>\<open>length_actual and int(math.ceil(length_actual / len(spinner_factories)))\<close>, line 140:
  a false \<^verbatim>\<open>length_actual\<close> is passed on as it is; the division raises when there is no
  factory.
\<close>

definition each_length_of :: "int option \<Rightarrow> nat \<Rightarrow> failure + int option" where
  "each_length_of length_actual n =
     (case length_actual of
        None \<Rightarrow> Inr None
      | Some a \<Rightarrow>
          if a = 0 then Inr (Some 0)
          else if n = 0 then Inl ZeroDivisionError
          else Inr (Some \<lceil>(of_int a :: real) / of_int (int n)\<rceil>))"

text \<open>A list comprehension of calls: the first failure ends it.\<close>

fun collect :: "(failure + 'a) list \<Rightarrow> failure + 'a list" where
  "collect [] = Inr []"
| "collect (x # xs) =
     (case x of
        Inl e \<Rightarrow> Inl e
      | Inr y \<Rightarrow> (case collect xs of Inl e \<Rightarrow> Inl e | Inr ys \<Rightarrow> Inr (y # ys)))"

text \<open>
  \<^verbatim>\<open>max(spinners, key=op_cycles).cycles\<close>, lines 143 and 146; \<^verbatim>\<open>max\<close> of an empty list
  raises ValueError.
\<close>

definition longest_cycles :: "spinner list \<Rightarrow> failure + int" where
  "longest_cycles spinners =
     (case spinners of
        [] \<Rightarrow> Inl ValueError
      | s # ss \<Rightarrow> Inr (fold (\<lambda>x m. max m (cycles x)) ss (cycles s)))"

definition compound_inner_factory :: "factory list \<Rightarrow> int option \<Rightarrow> failure + spinner" where
  "compound_inner_factory spinner_factories length_actual =
     (case each_length_of length_actual (length spinner_factories) of
        Inl e \<Rightarrow> Inl e
      | Inr each_length \<Rightarrow>
     (case collect (map (\<lambda>f. inner_factory f each_length) spinner_factories) of
        Inl e \<Rightarrow> Inl e
      | Inr spinners \<Rightarrow>
     (case longest_cycles spinners of
        Inl e \<Rightarrow> Inl e
      | Inr longest \<Rightarrow> Inr (CompoundI (map spinner_player spinners) longest length_actual))))"

definition compound_spinner_factory :: "factory list \<Rightarrow> factory" where
  "compound_spinner_factory spinner_factories =
     \<lparr>natural = sum_list (map natural spinner_factories),
      inner_factory = compound_inner_factory spinner_factories\<rparr>"

text \<open>\<^verbatim>\<open>delayed_spinner_factory\<close>, lines 155 to 174.\<close>

text \<open>
  \<^verbatim>\<open>math.ceil(length_actual / spinner_factory.natural) if length_actual else copies\<close>,
  lines 165 and 166.
\<close>

definition copies_actual_of :: "int option \<Rightarrow> int \<Rightarrow> int \<Rightarrow> failure + int" where
  "copies_actual_of length_actual natural' copies =
     (if truthy length_actual
      then (if natural' = 0 then Inl ZeroDivisionError
            else Inr \<lceil>(of_int (or_int length_actual 0) :: real) / of_int natural'\<rceil>)
      else Inr copies)"

text \<open>
  Lines 168 to 170: player number \<open>i\<close> is advanced by \<^verbatim>\<open>range(i * offset)\<close> calls of
  \<^verbatim>\<open>next\<close>, the players taken in order from number \<open>i\<close> on.
\<close>

fun delay_players :: "int \<Rightarrow> nat \<Rightarrow> player list \<Rightarrow> player list option" where
  "delay_players offset i [] = Some []"
| "delay_players offset i (s # ss) =
     (case discard (nat (int i * offset)) s of
        None \<Rightarrow> None
      | Some s' \<Rightarrow>
          (case delay_players offset (Suc i) ss of
             None \<Rightarrow> None
           | Some ss' \<Rightarrow> Some (s' # ss')))"

definition delayed_inner_factory ::
  "factory \<Rightarrow> int \<Rightarrow> int \<Rightarrow> int option \<Rightarrow> failure + spinner" where
  "delayed_inner_factory spinner_factory copies offset length_actual =
     (case copies_actual_of length_actual (natural spinner_factory) copies of
        Inl e \<Rightarrow> Inl e
      | Inr copies_actual \<Rightarrow>
     (case inner_factory
             (compound_spinner_factory (replicate (nat copies_actual) spinner_factory))
             length_actual of
        Inl e \<Rightarrow> Inl e
      | Inr result \<Rightarrow>
     (case result of
        CompoundI ps c w \<Rightarrow>
          (case delay_players offset 0 ps of
             None \<Rightarrow> Inl NonTermination
           | Some ps' \<Rightarrow> Inr (CompoundI ps' c w))
      | _ \<Rightarrow> Inl AttributeError)))"

definition delayed_spinner_factory :: "factory \<Rightarrow> int \<Rightarrow> int \<Rightarrow> factory" where
  "delayed_spinner_factory spinner_factory copies offset =
     \<lparr>natural = natural spinner_factory * copies,
      inner_factory = delayed_inner_factory spinner_factory copies offset\<rparr>"

subsection \<open>Widths, well-formed configurations and schedules\<close>

text \<open>
  The definitions of this subsection are not code of the module; the properties below
  are stated and proved with them.

  \<open>frame_width s\<close>: the width of the frames of a spinner, read off what it captured: the
  width \<^verbatim>\<open>repeating\<close> was given, the width of the ribbon's window, or, without a width,
  the width of the first frame and the sum over the players.
\<close>

fun frame_width :: "spinner \<Rightarrow> nat" and player_width :: "player \<Rightarrow> nat" where
  "frame_width (FrameI frames length_actual) =
     (case length_actual of None \<Rightarrow> length (hd frames) | Some w \<Rightarrow> nat w)"
| "frame_width (ScrollI rb c) = nat (rb_length rb)"
| "frame_width (BounceI r l rds lds c length_actual) = nat length_actual"
| "frame_width (CompoundI ps c length_actual) =
     (case length_actual of None \<Rightarrow> sum_list (map player_width ps) | Some w \<Rightarrow> nat w)"
| "player_width (Player s k) = frame_width s"

text \<open>
  \<open>spinner_ok s\<close>: every run of \<open>s\<close> yields at least one frame, and so do the runs of
  the spinners below it; frames given without a width are as wide as the first; the
  tape of a ribbon is not empty. No bouncing spinner is ever built, so none is ok.
\<close>

fun spinner_ok :: "spinner \<Rightarrow> bool" and player_ok :: "player \<Rightarrow> bool" where
  "spinner_ok (FrameI frames length_actual) =
     (frames \<noteq> [] \<and> (length_actual = None \<longrightarrow> (\<forall>x\<in>set frames. length (hd frames) = length x)))"
| "spinner_ok (ScrollI rb c) = (0 < c \<and> tape rb \<noteq> [])"
| "spinner_ok (BounceI r l rds lds c length_actual) = False"
| "spinner_ok (CompoundI ps c length_actual) = (0 < c \<and> (\<forall>p\<in>set ps. player_ok p))"
| "player_ok (Player s k) = spinner_ok s"

text \<open>One \<^verbatim>\<open>next\<close> of a player returns a frame of its width and keeps the player ok.\<close>

definition steps_ok :: "player \<Rightarrow> bool" where
  "steps_ok p = (\<exists>fill p'. player_next p = Some (fill, p') \<and> length fill = player_width p
                   \<and> player_ok p' \<and> player_width p' = player_width p)"

text \<open>A width to bind at: none, or a positive one.\<close>

definition width_ok :: "int option \<Rightarrow> bool" where
  "width_ok length_actual = (case length_actual of None \<Rightarrow> True | Some w \<Rightarrow> 0 < w)"

text \<open>
  What the invariants claim of one factory: \<open>natural\<close> is at least 1, and a spinner bound
  at a width that is ok is ok, has \<open>cycles\<close> at least 1 and frames of the bound width.
\<close>

definition good :: "factory \<Rightarrow> bool" where
  "good f = (1 \<le> natural f \<and>
     (\<forall>la s. width_ok la \<and> inner_factory f la = Inr s \<longrightarrow>
        spinner_ok s \<and> 1 \<le> cycles s \<and> int (frame_width s) = or_int la (natural f)))"

text \<open>
  The configurations the invariants hold for:
  \<^item> a frame factory whose frames are not empty and all as wide as the first;
  \<^item> a scrolling factory with some characters and no negative \<open>length\<close> or \<open>block\<close>;
  \<^item> a bouncing factory with \<open>length\<close> at least 1;
  \<^item> a compound factory over at least one factory, all of them well formed;
  \<^item> a delayed factory over a well-formed factory, with \<open>copies\<close> at least 1.
\<close>

inductive well_formed :: "factory \<Rightarrow> bool" where
  wf_frames: "frame_spinner_factory frames = Inr f \<Longrightarrow>
     \<forall>x\<in>set frames. x \<noteq> [] \<and> length (hd frames) = length x \<Longrightarrow> well_formed f"
| wf_scrolling: "chars \<noteq> [] \<Longrightarrow> \<forall>l. length' = Some l \<longrightarrow> 0 \<le> l \<Longrightarrow>
     \<forall>b. block = Some b \<longrightarrow> 0 \<le> b \<Longrightarrow>
     well_formed (scrolling_spinner_factory chars length' block background right hiding overlay)"
| wf_bouncing: "1 \<le> length' \<Longrightarrow>
     well_formed (bouncing_spinner_factory right_chars length' block left_chars blank hiding)"
| wf_compound: "fs \<noteq> [] \<Longrightarrow> \<forall>f\<in>set fs. well_formed f \<Longrightarrow>
     well_formed (compound_spinner_factory fs)"
| wf_delayed: "well_formed f \<Longrightarrow> 1 \<le> copies \<Longrightarrow>
     well_formed (delayed_spinner_factory f copies offset)"

text \<open>\<open>take_frames n p\<close>: the first \<open>n\<close> frames of a player read alone, and the player after.\<close>

fun take_frames :: "nat \<Rightarrow> player \<Rightarrow> (string list \<times> player) option" where
  "take_frames 0 p = Some ([], p)"
| "take_frames (Suc n) p =
     (case player_next p of
        None \<Rightarrow> None
      | Some (fill, p') \<Rightarrow>
          (case take_frames n p' of
             None \<Rightarrow> None
           | Some (fills, p'') \<Rightarrow> Some (fill # fills, p'')))"

text \<open>
  Two players read in turns, \<open>True\<close> for a \<^verbatim>\<open>next\<close> of the first and \<open>False\<close> for a
  \<^verbatim>\<open>next\<close> of the second: the frames each has yielded, and the players after.
\<close>

fun interleave ::
  "bool list \<Rightarrow> player \<Rightarrow> player \<Rightarrow> ((string list \<times> player) \<times> (string list \<times> player)) option" where
  "interleave [] p q = Some (([], p), ([], q))"
| "interleave (b # bs) p q =
     (if b then
        (case player_next p of
           None \<Rightarrow> None
         | Some (fill, p') \<Rightarrow>
             (case interleave bs p' q of
                None \<Rightarrow> None
              | Some ((fills, p''), r) \<Rightarrow> Some ((fill # fills, p''), r)))
      else
        (case player_next q of
           None \<Rightarrow> None
         | Some (fill, q') \<Rightarrow>
             (case interleave bs p q' of
                None \<Rightarrow> None
              | Some (r, (fills, q'')) \<Rightarrow> Some (r, (fill # fills, q'')))))"


section \<open>Properties\<close>

subsection \<open>Players and ribbons\<close>


lemma player_next_scroll:
  "player_next (Player (ScrollI rb c) k) =
     (if 0 < c
      then Some (window rb, Player (ScrollI (rb\<lparr>rb_cursor := rb_cursor rb + rb_step rb\<rparr>) c)
                   (Suc (if k < nat c then k else 0)))
      else None)"
  by (simp add: ribbon_next_def Let_def)

lemma discard_scroll:
  "0 < c \<Longrightarrow> \<exists>k'. discard t (Player (ScrollI rb c) k) =
     Some (Player (ScrollI (rb\<lparr>rb_cursor := rb_cursor rb + int t * rb_step rb\<rparr>) c) k')"
proof (induction t arbitrary: rb k)
  case 0
  then show ?case by simp
next
  case (Suc t)
  show ?case
    using Suc.prems Suc.IH[of "rb\<lparr>rb_cursor := rb_cursor rb + rb_step rb\<rparr>"]
    by (auto simp add: player_next_scroll distrib_right add.assoc simp del: player_next.simps)
qed

text \<open>A player over a scrolling spinner reads the ribbon on, run after run.\<close>

lemma frame_at_scroll:
  "0 < c \<Longrightarrow> frame_at (Player (ScrollI rb c) k) t =
     Some (window (rb\<lparr>rb_cursor := rb_cursor rb + int t * rb_step rb\<rparr>))"
  using discard_scroll[of c t rb k]
  by (auto simp add: frame_at_def player_next_scroll simp del: player_next.simps)

lemma tape_cursor [simp]: "tape (rb\<lparr>rb_cursor := x\<rparr>) = tape rb"
  by (simp add: tape_def)

text \<open>The window sees the same cells after the cursor has moved by whole tapes.\<close>

lemma window_period:
  "window (rb\<lparr>rb_cursor := x + int (length (tape rb)) * m\<rparr>) = window (rb\<lparr>rb_cursor := x\<rparr>)"
proof -
  have "(x + int (length (tape rb)) * m + j) mod int (length (tape rb))
          = (x + j) mod int (length (tape rb))" for j
    by (metis add.commute add.left_commute mod_mult_self2)
  then show ?thesis
    by (simp add: window_def Let_def cong: option.case_cong)
qed

subsection \<open>Scrolling spinners\<close>

lemma scrolling_bind_cycles:
  "inner_factory (scrolling_spinner_factory chars length' block background right hiding overlay)
     length_actual = Inr s
   \<Longrightarrow> cycles s = (let bound_width = or_int length_actual (or_int length' (int (length chars)));
                      block_size = block_size_of block (ratio_of length' length_actual) chars;
                      gap = (if hiding then bound_width else max 0 (bound_width - block_size))
                  in gap + block_size)"
  by (auto simp add: scrolling_spinner_factory_def scrolling_inner_factory_def Let_def
      split: if_splits)

lemma scrolling_x5_bind:
  "inner_factory (scrolling_spinner_factory ''x'' (Some 5) None None True True False) None
   = Inr (ScrollI \<lparr>rb_overlay = False, rb_background = '' '', rb_gap = 5, rb_contents = [''x''],
      rb_length = 5, rb_step = - 1, rb_cursor = 0\<rparr> 6)"
  by (simp add: scrolling_spinner_factory_def scrolling_inner_factory_def Let_def truthy_def
      or_int_def or_str_def ratio_of_def block_size_of_def py_int_def
      static_sliding_window_factory_def)

lemma scrolling_x5_tape:
  "length (tape \<lparr>rb_overlay = False, rb_background = '' '', rb_gap = 5, rb_contents = [''x''],
      rb_length = 5, rb_step = - 1, rb_cursor = 0\<rparr>) = 6"
  by (simp add: tape_def)

text \<open>
  Claim C1. Binding a scrolling factory at a width gives a spinner with
  \<open>cycles = gap + block_size\<close>, where the bound width is the width given, or the natural
  width (\<open>length\<close>, or the width of \<open>chars\<close>) when none is given, \<open>gap\<close> is the bound width
  when \<open>hiding\<close> is set and \<open>max 0 (bound_width - block_size)\<close> otherwise. For
  \<open>chars = "x"\<close>, \<open>length = 5\<close>, \<open>hiding\<close>, \<open>right\<close>, bound at its natural width: the spinner
  has \<open>cycles = 6\<close>, and the frames a player reads from it, run after run, repeat with
  period 6.
\<close>

theorem scrolling_cycles:
  "(\<forall>s. inner_factory (scrolling_spinner_factory chars length' block background right hiding
            overlay) length_actual = Inr s \<longrightarrow>
      cycles s = (let bound_width = or_int length_actual (or_int length' (int (length chars)));
                      block_size = block_size_of block (ratio_of length' length_actual) chars;
                      gap = (if hiding then bound_width else max 0 (bound_width - block_size))
                  in gap + block_size))
   \<and> (\<exists>s. inner_factory (scrolling_spinner_factory ''x'' (Some 5) None None True True False)
             None = Inr s
         \<and> cycles s = 6
         \<and> (\<forall>t. \<exists>fill. frame_at (spinner_player s) t = Some fill
                      \<and> frame_at (spinner_player s) (t + 6) = Some fill))"
proof (intro conjI allI impI)
  fix s
  assume "inner_factory (scrolling_spinner_factory chars length' block background right hiding
            overlay) length_actual = Inr s"
  then show "cycles s =
      (let bound_width = or_int length_actual (or_int length' (int (length chars)));
           block_size = block_size_of block (ratio_of length' length_actual) chars;
           gap = (if hiding then bound_width else max 0 (bound_width - block_size))
       in gap + block_size)"
    by (rule scrolling_bind_cycles)
next
  let ?rb = "\<lparr>rb_overlay = False, rb_background = '' '', rb_gap = 5, rb_contents = [''x''],
      rb_length = 5, rb_step = - 1, rb_cursor = 0\<rparr>"
  have per: "window (?rb\<lparr>rb_cursor := - int t + int (length (tape ?rb)) * (- 1)\<rparr>)
               = window (?rb\<lparr>rb_cursor := - int t\<rparr>)" for t
    by (rule window_period)
  have "frame_at (spinner_player (ScrollI ?rb 6)) (t + 6)
          = frame_at (spinner_player (ScrollI ?rb 6)) t" for t
    using per[of t] unfolding scrolling_x5_tape
    by (simp add: spinner_player_def frame_at_scroll)
  moreover have "\<exists>fill. frame_at (spinner_player (ScrollI ?rb 6)) t = Some fill" for t
    by (simp add: spinner_player_def frame_at_scroll)
  ultimately show
    "\<exists>s. inner_factory (scrolling_spinner_factory ''x'' (Some 5) None None True True False)
            None = Inr s
         \<and> cycles s = 6
         \<and> (\<forall>t. \<exists>fill. frame_at (spinner_player s) t = Some fill
                      \<and> frame_at (spinner_player s) (t + 6) = Some fill)"
    unfolding scrolling_x5_bind by (intro exI[of _ "ScrollI ?rb 6"]) (simp; metis)
qed

theorem scrolling_cycles_witness:
  "inner_factory (scrolling_spinner_factory ''ab'' (Some 10) (Some 2) None True False False)
       (Some 20)
     = Inr (ScrollI (static_sliding_window_factory '' '' 16 [''bbbb'', ''aaaa''] 20 (- 1) (- 4))
              20)
   \<and> cycles (ScrollI (static_sliding_window_factory '' '' 16 [''bbbb'', ''aaaa''] 20 (- 1) (- 4))
        20) = 16 + 4"
proof -
  have b: "inner_factory
             (scrolling_spinner_factory ''ab'' (Some 10) (Some 2) None True False False)
             (Some 20)
     = Inr (ScrollI (static_sliding_window_factory '' '' 16 [''bbbb'', ''aaaa''] 20 (- 1) (- 4))
              20)"
    by (simp add: scrolling_spinner_factory_def scrolling_inner_factory_def Let_def truthy_def
        or_int_def or_str_def ratio_of_def block_size_of_def py_int_def numeral_eq_Suc)
  from scrolling_cycles[of "''ab''" "Some 10" "Some 2" None True False False "Some 20"] b
  show ?thesis
    by (simp add: Let_def or_int_def ratio_of_def block_size_of_def py_int_def)
qed








subsection \<open>Bouncing spinners\<close>



text \<open>
  The keyword \<^verbatim>\<open>blank\<close> of lines 96 and 98 is not a parameter of
  \<^verbatim>\<open>scrolling_spinner_factory\<close> (its parameter is \<^verbatim>\<open>background\<close>): the call raises.
\<close>

lemma scrolling_call_fails: "scrolling_call chars length' block blank right hiding = Inl TypeError"
  by (simp add: scrolling_call_def accepts_keywords_def scrolling_spinner_factory_params_def)

text \<open>
  Claim C5 says that binding a bouncing factory succeeds, with
  \<open>cycles = right_direction_size + left_direction_size\<close>. The code does not get there:
  whatever the arguments and the width, the first statement of \<^verbatim>\<open>inner_factory\<close>
  (line 96) raises TypeError, so no bouncing spinner is ever returned.
\<close>

theorem bouncing_bind_raises:
  "inner_factory (bouncing_spinner_factory right_chars length' block left_chars blank hiding)
     length_actual = Inl TypeError"
  by (simp add: bouncing_spinner_factory_def bouncing_inner_factory_def scrolling_call_fails)

subsection \<open>Compound spinners\<close>


lemma frame_at_0: "frame_at p 0 = map_option fst (player_next p)"
  by (simp add: frame_at_def)

lemma frame_at_Suc:
  "frame_at p (Suc t) = (case player_next p of None \<Rightarrow> None | Some (fill, p') \<Rightarrow> frame_at p' t)"
  by (simp add: frame_at_def split: option.splits)


lemma player_next_compound:
  "player_next (Player (CompoundI ps c w) k) =
     (if 0 < c then
        (case those_list (map player_next ps) of
           None \<Rightarrow> None
         | Some fills \<Rightarrow>
             Some (repeating w (concat (map fst fills)),
                   Player (CompoundI (map snd fills) c w) (Suc (if k < nat c then k else 0))))
      else None)"
  by (simp add: Let_def split: option.splits)


lemma player_next_frames:
  "frames \<noteq> [] \<Longrightarrow> player_next (Player (FrameI frames w) k) =
     Some (repeating w (frames ! (if k < length frames then k else 0)),
           Player (FrameI frames w) (Suc (if k < length frames then k else 0)))"
  by (simp add: Let_def)



lemma fold_max_cycles:
  "fold (\<lambda>x m. max m (cycles x)) ss a = Max (insert a (cycles ` set ss))"
proof (induction ss arbitrary: a)
  case Nil
  then show ?case by simp
next
  case (Cons s ss)
  have "Max (insert (max a (cycles s)) (cycles ` set ss)) = Max (insert a (insert (cycles s) (cycles ` set ss)))"
  proof (cases "set ss = {}")
    case True
    then show ?thesis by (simp add: max.commute)
  next
    case False
    then show ?thesis by (simp add: max.assoc)
  qed
  with Cons show ?case by simp
qed

lemma longest_cycles_Max:
  "longest_cycles spinners = Inr c \<Longrightarrow> spinners \<noteq> [] \<and> c = Max (cycles ` set spinners)"
  by (cases spinners) (auto simp add: longest_cycles_def fold_max_cycles)

lemma collect_Inr:
  "collect xs = Inr ys \<Longrightarrow> xs = map Inr ys"
  by (induction xs arbitrary: ys) (auto split: sum.splits)

lemma compound_bind:
  assumes "inner_factory (compound_spinner_factory fs) W = Inr s"
  shows "\<exists>each subs. each_length_of W (length fs) = Inr each
           \<and> map (\<lambda>f. inner_factory f each) fs = map Inr subs
           \<and> subs \<noteq> []
           \<and> s = CompoundI (map spinner_player subs) (Max (cycles ` set subs)) W"
proof -
  from assms obtain each subs c where e: "each_length_of W (length fs) = Inr each"
    and subs: "collect (map (\<lambda>f. inner_factory f each) fs) = Inr subs"
    and c: "longest_cycles subs = Inr c"
    and res: "s = CompoundI (map spinner_player subs) c W"
    by (auto simp add: compound_spinner_factory_def compound_inner_factory_def split: sum.splits)
  from collect_Inr[OF subs] longest_cycles_Max[OF c] e res show ?thesis by auto
qed





subsection \<open>Delayed spinners\<close>


lemma delay_players_nth:
  "delay_players offset j ps = Some ps' \<Longrightarrow>
   length ps' = length ps \<and>
   (\<forall>i<length ps. discard (nat (int (j + i) * offset)) (ps ! i) = Some (ps' ! i))"
proof (induction ps arbitrary: j ps')
  case Nil
  then show ?case by simp
next
  case (Cons p ps)
  from Cons.prems obtain q qs where q: "discard (nat (int j * offset)) p = Some q"
    and qs: "delay_players offset (Suc j) ps = Some qs" and ps': "ps' = q # qs"
    by (auto split: option.splits)
  from Cons.IH[OF qs] have l: "length qs = length ps"
    and n: "\<And>i. i < length ps \<Longrightarrow> discard (nat (int (Suc j + i) * offset)) (ps ! i) = Some (qs ! i)"
    by auto
  show ?case
  proof (intro conjI allI impI)
    show "length ps' = length (p # ps)" using l ps' by simp
  next
    fix i assume "i < length (p # ps)"
    then show "discard (nat (int (j + i) * offset)) ((p # ps) ! i) = Some (ps' ! i)"
      using q n[of "i - 1"] ps' by (cases i) auto
  qed
qed

lemma collect_replicate:
  "collect (replicate n x) = Inr ys \<Longrightarrow> 0 < n \<Longrightarrow> \<exists>y. x = Inr y \<and> ys = replicate n y"
proof (induction n arbitrary: ys)
  case 0
  then show ?case by simp
next
  case (Suc n)
  then show ?case
    by (cases n) (auto split: sum.splits)
qed



lemma delayed_bind:
  assumes "inner_factory (delayed_spinner_factory f copies offset) W = Inr s"
  shows "\<exists>sub each c n. inner_factory f each = Inr sub \<and> 0 < n
           \<and> inner_factory (compound_spinner_factory (replicate n f)) W
               = Inr (CompoundI (replicate n (spinner_player sub)) c W)
           \<and> s = CompoundI (players s) c W
           \<and> delay_players offset 0 (replicate n (spinner_player sub)) = Some (players s)"
proof -
  from assms obtain ca where ca: "copies_actual_of W (natural f) copies = Inr ca"
    by (auto simp add: delayed_spinner_factory_def delayed_inner_factory_def split: sum.splits)
  let ?n = "nat ca"
  from assms ca obtain result where r: "inner_factory (compound_spinner_factory (replicate ?n f)) W = Inr result"
    by (auto simp add: delayed_spinner_factory_def delayed_inner_factory_def split: sum.splits)
  then obtain each subs c where e: "each_length_of W ?n = Inr each"
    and subs: "collect (map (\<lambda>f. inner_factory f each) (replicate ?n f)) = Inr subs"
    and c: "longest_cycles subs = Inr c"
    and res: "result = CompoundI (map spinner_player subs) c W"
    by (auto simp add: compound_spinner_factory_def compound_inner_factory_def split: sum.splits)
  from c have ne: "subs \<noteq> []" by (auto simp add: longest_cycles_def)
  with subs have n: "0 < ?n" by (cases "?n") auto
  from subs have "collect (replicate ?n (inner_factory f each)) = Inr subs" by simp
  from collect_replicate[OF this n] obtain sub where sub: "inner_factory f each = Inr sub"
    and subs': "subs = replicate ?n sub" by auto
  from assms ca r res obtain ps' where d: "delay_players offset 0 (map spinner_player subs) = Some ps'"
    and s: "s = CompoundI ps' c W"
    by (auto simp add: delayed_spinner_factory_def delayed_inner_factory_def split: sum.splits option.splits)
  show ?thesis
    using sub n r res subs' d s by (intro exI[of _ sub] exI[of _ each] exI[of _ c] exI[of _ ?n]) simp
qed



subsection \<open>Invariants of factories and spinners\<close>

lemma length_repeating: "length (repeating (Some w) text) = nat w"
  by (simp add: repeating_def)

lemma length_window: "tape rb \<noteq> [] \<Longrightarrow> length (window rb) = nat (rb_length rb)"
  by (simp add: window_def Let_def)

lemma those_list_players:
  assumes "\<forall>p\<in>set ps. steps_ok p"
  shows "\<exists>fills. those_list (map player_next ps) = Some fills
           \<and> length (concat (map fst fills)) = sum_list (map player_width ps)
           \<and> (\<forall>p'\<in>set (map snd fills). player_ok p')
           \<and> map player_width (map snd fills) = map player_width ps"
  using assms
proof (induction ps)
  case Nil
  then show ?case by simp
next
  case (Cons p ps)
  from Cons.prems obtain fill p' where p: "player_next p = Some (fill, p')"
    "length fill = player_width p" "player_ok p'" "player_width p' = player_width p"
    by (auto simp add: steps_ok_def)
  from Cons obtain fills where f: "those_list (map player_next ps) = Some fills"
    "length (concat (map fst fills)) = sum_list (map player_width ps)"
    "\<forall>p'\<in>set (map snd fills). player_ok p'"
    "map player_width (map snd fills) = map player_width ps"
    by auto
  show ?case
    using p f by (intro exI[of _ "(fill, p') # fills"]) simp
qed

lemma steps_ok_frames:
  assumes ok: "spinner_ok (FrameI frames la)"
  shows "steps_ok (Player (FrameI frames la) k)"
proof -
  let ?k = "if k < length frames then k else 0"
  have ne: "frames \<noteq> []" using ok by simp
  then have k: "?k < length frames" by simp
  have n: "player_next (Player (FrameI frames la) k) =
       Some (repeating la (frames ! ?k), Player (FrameI frames la) (Suc ?k))"
    using ne by (rule player_next_frames)
  have m: "frames ! ?k \<in> set frames" using k by (rule nth_mem)
  have w: "length (repeating la (frames ! ?k)) = player_width (Player (FrameI frames la) k)"
  proof (cases la)
    case None
    with ok have "\<forall>x\<in>set frames. length (hd frames) = length x" by simp
    from this m have "length (hd frames) = length (frames ! ?k)" by (rule bspec)
    with None show ?thesis by (simp add: repeating_def)
  next
    case (Some w)
    then show ?thesis by (simp add: length_repeating)
  qed
  have o: "player_ok (Player (FrameI frames la) (Suc ?k))" using ok by simp
  have pw: "player_width (Player (FrameI frames la) (Suc ?k)) = player_width (Player (FrameI frames la) k)"
    by simp
  show ?thesis
    unfolding steps_ok_def using n w o pw by blast
qed

lemma steps_ok_scroll:
  "spinner_ok (ScrollI rb c) \<Longrightarrow> steps_ok (Player (ScrollI rb c) k)"
  by (simp add: steps_ok_def player_next_scroll length_window del: player_next.simps)

lemma steps_ok_compound:
  assumes ok: "spinner_ok (CompoundI ps c la)" and ih: "\<forall>p\<in>set ps. steps_ok p"
  shows "steps_ok (Player (CompoundI ps c la) k)"
proof -
  from those_list_players[OF ih] obtain fills where
    f: "those_list (map player_next ps) = Some fills"
    "length (concat (map fst fills)) = sum_list (map player_width ps)"
    "\<forall>p'\<in>set (map snd fills). player_ok p'"
    "map player_width (map snd fills) = map player_width ps"
    by blast
  have "length (repeating la (concat (map fst fills))) = frame_width (CompoundI ps c la)"
    using f(2) by (cases la) (simp_all add: repeating_def)
  moreover have "frame_width (CompoundI (map snd fills) c la) = frame_width (CompoundI ps c la)"
    using f(4) by (cases la) (simp_all add: comp_def)
  moreover have "0 < c" using ok by simp
  ultimately show ?thesis
    using f(1,3) unfolding steps_ok_def
    by (simp add: player_next_compound del: player_next.simps)
qed

lemma step_ok_spinner: "spinner_ok s \<longrightarrow> (\<forall>k. steps_ok (Player s k))"
  and step_ok: "player_ok p \<longrightarrow> steps_ok p"
proof (induction s and p)
  case (FrameI frames la)
  show ?case using steps_ok_frames by blast
next
  case (ScrollI rb c)
  show ?case using steps_ok_scroll by blast
next
  case (BounceI r l rds lds c la)
  show ?case by simp
next
  case (CompoundI ps c la)
  show ?case
  proof (intro impI allI)
    fix k assume ok: "spinner_ok (CompoundI ps c la)"
    then have "\<forall>p\<in>set ps. player_ok p" by simp
    with CompoundI have "\<forall>p\<in>set ps. steps_ok p" by blast
    with ok show "steps_ok (Player (CompoundI ps c la) k)" by (rule steps_ok_compound)
  qed
next
  case (Player s k)
  then show ?case by simp
qed

lemma discard_ok:
  "player_ok p \<Longrightarrow> \<exists>p'. discard n p = Some p' \<and> player_ok p' \<and> player_width p' = player_width p"
proof (induction n arbitrary: p)
  case 0
  then show ?case by simp
next
  case (Suc n)
  from Suc.prems step_ok[of p] obtain fill q where q: "player_next p = Some (fill, q)"
    "player_ok q" "player_width q = player_width p"
    by (auto simp add: steps_ok_def)
  from Suc.IH[OF q(2)] q show ?case by (simp del: player_next.simps)
qed

lemma frame_at_ok:
  assumes "player_ok p"
  shows "\<exists>fill. frame_at p t = Some fill \<and> length fill = player_width p"
proof -
  from discard_ok[OF assms, of t] obtain p' where p': "discard t p = Some p'" "player_ok p'"
    "player_width p' = player_width p" by auto
  from step_ok[of p'] p' obtain fill q where "player_next p' = Some (fill, q)"
    "length fill = player_width p" by (auto simp add: steps_ok_def)
  with p' show ?thesis by (simp add: frame_at_def del: player_next.simps)
qed

lemma good_frames:
  assumes f: "frame_spinner_factory frames = Inr f"
    and eq: "\<forall>x\<in>set frames. x \<noteq> [] \<and> length (hd frames) = length x"
  shows "good f"
proof -
  define frames' where "frames' = (if length frames = 1 then map (\<lambda>c. [c]) (hd frames) else frames)"
  from f have ne: "frames' \<noteq> []"
    and nat: "natural f = int (length (hd frames'))"
    and bind: "\<And>la. inner_factory f la = Inr (FrameI frames' la)"
    by (auto simp add: frame_spinner_factory_def frames'_def Let_def split: list.splits if_splits)
  have same: "\<forall>x\<in>set frames'. length (hd frames') = length x"
  proof (cases "length frames = 1")
    case True
    then have "\<forall>x\<in>set frames'. length x = 1" by (auto simp add: frames'_def)
    moreover from this ne have "length (hd frames') = 1" by (cases frames') auto
    ultimately show ?thesis by simp
  next
    case False
    with eq show ?thesis by (simp add: frames'_def)
  qed
  have pos: "1 \<le> length (hd frames')"
  proof (cases "length frames = 1")
    case True
    then have "\<forall>x\<in>set frames'. length x = 1" by (auto simp add: frames'_def)
    with ne show ?thesis by (cases frames') auto
  next
    case False
    with ne have "hd frames' \<in> set frames" by (simp add: frames'_def)
    with eq have "hd frames' \<noteq> []" by blast
    then show ?thesis by (simp add: Suc_le_eq)
  qed
  show ?thesis
    unfolding good_def
  proof (intro conjI allI impI)
    show "1 \<le> natural f" using nat pos by simp
  next
    fix la s assume a: "width_ok la \<and> inner_factory f la = Inr s"
    then have s: "s = FrameI frames' la" using bind by simp
    show "spinner_ok s" using s ne same by simp
    show "1 \<le> cycles s" using s ne by (cases frames') simp_all
    show "int (frame_width s) = or_int la (natural f)"
      using s a nat by (cases la) (simp_all add: or_int_def width_ok_def)
  qed
qed

lemma ratio_of_pos:
  "(\<forall>l. length' = Some l \<longrightarrow> 0 \<le> l) \<Longrightarrow> width_ok la \<Longrightarrow> 0 < ratio_of length' la"
  by (auto simp add: ratio_of_def width_ok_def split: option.splits)

lemma block_size_of_pos:
  assumes "chars \<noteq> []" and "0 \<le> or_int block 0" and "0 < ratio"
  shows "1 \<le> block_size_of block ratio chars"
proof -
  have "0 \<le> of_int (or_int block 0) * ratio" using assms by simp
  then have "0 \<le> py_int (of_int (or_int block 0) * ratio)"
    by (simp add: py_int_def)
  with assms(1) show ?thesis
    by (cases chars) (auto simp add: block_size_of_def Let_def)
qed

lemma tape_nonempty:
  "seg \<in> set (rb_contents rb) \<Longrightarrow> seg \<noteq> [] \<Longrightarrow> tape rb \<noteq> []"
  by (auto simp add: tape_def)

lemma good_scrolling:
  assumes chars: "chars \<noteq> []"
    and len: "\<forall>l. length' = Some l \<longrightarrow> 0 \<le> l"
    and blk: "\<forall>b. block = Some b \<longrightarrow> 0 \<le> b"
  shows "good (scrolling_spinner_factory chars length' block background right hiding overlay)"
proof -
  let ?f = "scrolling_spinner_factory chars length' block background right hiding overlay"
  have nt: "natural ?f = or_int length' (int (length chars))"
    by (simp add: scrolling_spinner_factory_def Let_def)
  have "1 \<le> int (length chars)" using chars by (cases chars) simp_all
  then have npos: "1 \<le> natural ?f"
    unfolding nt using len by (auto simp add: or_int_def split: option.splits)
  have b0: "0 \<le> or_int block 0"
    using blk by (auto simp add: or_int_def split: option.splits)
  show ?thesis
    unfolding good_def
  proof (intro conjI allI impI)
    show "1 \<le> natural ?f" by (rule npos)
  next
    fix la s assume a: "width_ok la \<and> inner_factory ?f la = Inr s"
    let ?la = "or_int la (natural ?f)"
    let ?bs = "block_size_of block (ratio_of length' la) chars"
    let ?gap = "if hiding then ?la else max 0 (?la - ?bs)"
    have lapos: "1 \<le> ?la"
      using a npos by (auto simp add: or_int_def width_ok_def split: option.splits)
    have bspos: "1 \<le> ?bs"
      using chars b0 ratio_of_pos[OF len] a by (simp add: block_size_of_pos)
    from a obtain rb where s: "s = ScrollI rb (?gap + ?bs)"
      and l: "rb_length rb = ?la"
      and c: "rb_contents rb = (if truthy block
                then map (\<lambda>c. replicate (nat ?bs) c) (if right then rev chars else chars)
                else [chars])"
      by (auto simp add: scrolling_spinner_factory_def scrolling_inner_factory_def Let_def
          static_sliding_window_factory_def overlay_sliding_window_factory_def
          split: if_splits)
    have "\<exists>seg\<in>set (rb_contents rb). seg \<noteq> []"
    proof (cases "truthy block")
      case True
      from chars obtain x xs where "(if right then rev chars else chars) = x # xs"
        by (cases "if right then rev chars else chars") (auto split: if_splits)
      with True c bspos show ?thesis by auto
    next
      case False
      with c chars show ?thesis by simp
    qed
    then have t: "tape rb \<noteq> []" using tape_nonempty by blast
    have g: "0 \<le> ?gap" using lapos by (cases hiding) simp_all
    show "spinner_ok s" using s t g bspos by simp
    show "1 \<le> cycles s" using s g bspos by simp
    show "int (frame_width s) = or_int la (natural ?f)" using s l lapos by simp
  qed
qed

lemma good_bouncing:
  "1 \<le> length' \<Longrightarrow> good (bouncing_spinner_factory right_chars length' block left_chars blank hiding)"
  by (simp add: good_def bouncing_spinner_factory_def bouncing_inner_factory_def
      scrolling_call_fails Let_def)

lemma discard_ok_eq:
  assumes "player_ok p" and "discard n p = Some p'"
  shows "player_ok p' \<and> player_width p' = player_width p"
  using discard_ok[OF assms(1), of n] assms(2) by auto

lemma sum_list_ge_length:
  "\<forall>x\<in>set xs. (1::int) \<le> x \<Longrightarrow> int (length xs) \<le> sum_list xs"
  by (induction xs) auto

lemma binds_list_all2:
  "map (\<lambda>f. inner_factory f each) fs = map Inr subs \<Longrightarrow>
   list_all2 (\<lambda>f s. inner_factory f each = Inr s) fs subs"
proof (induction fs arbitrary: subs)
  case Nil
  then show ?case by simp
next
  case (Cons f fs)
  then show ?case by (cases subs) auto
qed

lemma each_length_ok:
  "width_ok la \<Longrightarrow> 0 < n \<Longrightarrow> each_length_of la n = Inr each \<Longrightarrow>
   width_ok each \<and> (la = None \<longrightarrow> each = None)"
proof (cases la)
  case None
  assume "each_length_of la n = Inr each"
  with None show ?thesis by (simp add: each_length_of_def width_ok_def)
next
  case (Some w)
  assume a: "width_ok la" "0 < n" "each_length_of la n = Inr each"
  with Some have w: "0 < w" by (simp add: width_ok_def)
  with a Some have e: "each = Some \<lceil>real_of_int w / real n\<rceil>"
    by (simp add: each_length_of_def)
  have "0 < real_of_int w / real n" using w a(2) by simp
  then have "0 < \<lceil>real_of_int w / real n\<rceil>" by (simp only: ceiling_less_iff[symmetric] zero_less_ceiling)
  with e Some show ?thesis by (simp add: width_ok_def)
qed

lemma good_subs:
  assumes "list_all2 (\<lambda>f s. inner_factory f each = Inr s) fs subs"
    and "\<forall>f\<in>set fs. good f" and "width_ok each"
  shows "(\<forall>s\<in>set subs. spinner_ok s \<and> 1 \<le> cycles s)
         \<and> int (sum_list (map frame_width subs)) = sum_list (map (\<lambda>f. or_int each (natural f)) fs)"
  using assms
proof (induction fs subs rule: list_all2_induct)
  case Nil
  then show ?case by simp
next
  case (Cons f fs s subs)
  from Cons.prems Cons.hyps(1) have "spinner_ok s \<and> 1 \<le> cycles s
      \<and> int (frame_width s) = or_int each (natural f)"
    by (simp add: good_def)
  with Cons show ?case by simp
qed

lemma good_compound:
  assumes ne: "fs \<noteq> []" and gd: "\<forall>f\<in>set fs. good f"
  shows "good (compound_spinner_factory fs)"
  unfolding good_def
proof (intro conjI allI impI)
  have "\<forall>x\<in>set (map natural fs). 1 \<le> x" using gd by (simp add: good_def)
  from sum_list_ge_length[OF this] ne
  have "1 \<le> sum_list (map natural fs)" by (cases fs) auto
  then show "1 \<le> natural (compound_spinner_factory fs)"
    by (simp add: compound_spinner_factory_def)
next
  fix la s
  assume a: "width_ok la \<and> inner_factory (compound_spinner_factory fs) la = Inr s"
  then obtain each subs where e: "each_length_of la (length fs) = Inr each"
    and m: "map (\<lambda>f. inner_factory f each) fs = map Inr subs"
    and sne: "subs \<noteq> []"
    and s: "s = CompoundI (map spinner_player subs) (Max (cycles ` set subs)) la"
    using compound_bind[of fs la s] by auto
  from ne have "0 < length fs" by simp
  from each_length_ok[OF _ this e] a have eok: "width_ok each" and en: "la = None \<longrightarrow> each = None"
    by auto
  from good_subs[OF binds_list_all2[OF m] gd eok]
  have ok: "\<forall>s\<in>set subs. spinner_ok s \<and> 1 \<le> cycles s"
    and w: "int (sum_list (map frame_width subs)) = sum_list (map (\<lambda>f. or_int each (natural f)) fs)"
    by auto
  from sne obtain x where x: "x \<in> set subs" by (cases subs) auto
  with ok have "1 \<le> cycles x" by simp
  moreover have "cycles x \<le> Max (cycles ` set subs)" using x by simp
  ultimately have c: "1 \<le> Max (cycles ` set subs)" by linarith
  show "spinner_ok s" using s ok c by (simp add: spinner_player_def)
  show "1 \<le> cycles s" using s c by simp
  show "int (frame_width s) = or_int la (natural (compound_spinner_factory fs))"
  proof (cases la)
    case None
    with en have "each = None" by simp
    with w have "int (sum_list (map frame_width subs)) = sum_list (map natural fs)"
      by (simp add: or_int_def)
    with None s show ?thesis
      by (simp add: or_int_def compound_spinner_factory_def spinner_player_def comp_def)
  next
    case (Some v)
    with a s show ?thesis by (simp add: or_int_def width_ok_def)
  qed
qed

lemma delayed_bind_copies:
  assumes "inner_factory (delayed_spinner_factory f copies offset) W = Inr s"
  shows "\<exists>sub c n. 0 < n \<and> copies_actual_of W (natural f) copies = Inr (int n)
           \<and> inner_factory (compound_spinner_factory (replicate n f)) W
               = Inr (CompoundI (replicate n (spinner_player sub)) c W)
           \<and> s = CompoundI (players s) c W
           \<and> delay_players offset 0 (replicate n (spinner_player sub)) = Some (players s)"
proof -
  from assms obtain ca where ca: "copies_actual_of W (natural f) copies = Inr ca"
    by (auto simp add: delayed_spinner_factory_def delayed_inner_factory_def split: sum.splits)
  from delayed_bind[OF assms] obtain sub each c n where n: "0 < n"
    and r: "inner_factory (compound_spinner_factory (replicate n f)) W
               = Inr (CompoundI (replicate n (spinner_player sub)) c W)"
    and s: "s = CompoundI (players s) c W"
    and d: "delay_players offset 0 (replicate n (spinner_player sub)) = Some (players s)"
    by blast
  from d have l: "length (players s) = n" using delay_players_nth[OF d] by simp
  from assms ca obtain result where r': "inner_factory (compound_spinner_factory (replicate (nat ca) f)) W = Inr result"
    by (auto simp add: delayed_spinner_factory_def delayed_inner_factory_def split: sum.splits)
  from compound_bind[OF r'] obtain subs where "length subs = nat ca"
    and res: "result = CompoundI (map spinner_player subs) (Max (cycles ` set subs)) W"
    by (metis length_map length_replicate)
  moreover from assms ca r' res obtain ps' where "delay_players offset 0 (map spinner_player subs) = Some ps'"
    and "s = CompoundI ps' (Max (cycles ` set subs)) W"
    by (auto simp add: delayed_spinner_factory_def delayed_inner_factory_def split: sum.splits option.splits)
  ultimately have "length (players s) = nat ca"
    using delay_players_nth by fastforce
  with l n have "ca = int n" by simp
  with ca n r s d show ?thesis by blast
qed

lemma good_delayed:
  assumes gd: "good f" and cp: "1 \<le> copies"
  shows "good (delayed_spinner_factory f copies offset)"
  unfolding good_def
proof (intro conjI allI impI)
  have "1 \<le> natural f" using gd by (simp add: good_def)
  with cp have "1 * 1 \<le> natural f * copies" by (intro mult_mono) simp_all
  then show "1 \<le> natural (delayed_spinner_factory f copies offset)"
    by (simp add: delayed_spinner_factory_def)
next
  fix la s
  assume a: "width_ok la \<and> inner_factory (delayed_spinner_factory f copies offset) la = Inr s"
  then obtain sub c n where n: "0 < n"
    and ca: "copies_actual_of la (natural f) copies = Inr (int n)"
    and r: "inner_factory (compound_spinner_factory (replicate n f)) la
               = Inr (CompoundI (replicate n (spinner_player sub)) c la)"
    and s: "s = CompoundI (players s) c la"
    and d: "delay_players offset 0 (replicate n (spinner_player sub)) = Some (players s)"
    using delayed_bind_copies[of f copies offset la s] by blast
  let ?r = "CompoundI (replicate n (spinner_player sub)) c la"
  have "good (compound_spinner_factory (replicate n f))"
    using n gd by (intro good_compound) auto
  with a r have rok: "spinner_ok ?r" and rc: "1 \<le> cycles ?r"
    and rw: "int (frame_width ?r) = or_int la (natural (compound_spinner_factory (replicate n f)))"
    unfolding good_def by blast+
  from rok n have pok: "player_ok (spinner_player sub)" by simp
  from delay_players_nth[OF d] have l: "length (players s) = n"
    and nth: "\<And>i. i < n \<Longrightarrow> discard (nat (int i * offset)) (spinner_player sub) = Some (players s ! i)"
    by auto
  have each: "player_ok p \<and> player_width p = player_width (spinner_player sub)"
    if "p \<in> set (players s)" for p
  proof -
    from that l obtain i where "i < n" "p = players s ! i" by (auto simp add: in_set_conv_nth)
    with nth[of i] discard_ok_eq[OF pok] show ?thesis by simp
  qed
  have "spinner_ok (CompoundI (players s) c la)" using rc each by simp
  then show "spinner_ok s" using s by simp
  have "cycles (CompoundI (players s) c la) = c" by simp
  then show "1 \<le> cycles s" using s rc by simp
  have "int (frame_width (CompoundI (players s) c la))
          = or_int la (natural (delayed_spinner_factory f copies offset))"
  proof (cases la)
    case None
    have "map player_width (players s) = replicate n (player_width (spinner_player sub))"
      using each l by (intro replicate_eqI) auto
    then have "sum_list (map player_width (players s)) = n * player_width (spinner_player sub)"
      by (simp add: sum_list_replicate)
    moreover have "int (n * player_width (spinner_player sub)) = int n * natural f"
      using rw None by (simp add: or_int_def compound_spinner_factory_def sum_list_replicate)
    moreover have "int n = copies" using ca None by (simp add: copies_actual_of_def truthy_def)
    ultimately show ?thesis
      using None by (simp add: or_int_def delayed_spinner_factory_def mult.commute)
  next
    case (Some v)
    with a show ?thesis by (simp add: or_int_def width_ok_def)
  qed
  then show "int (frame_width s) = or_int la (natural (delayed_spinner_factory f copies offset))"
    using s by simp
qed

lemma well_formed_good: "well_formed f \<Longrightarrow> good f"
proof (induction rule: well_formed.induct)
  case (wf_frames frames f)
  then show ?case by (rule good_frames)
next
  case (wf_scrolling chars length' block background right hiding overlay)
  then show ?case by (rule good_scrolling)
next
  case (wf_bouncing length' right_chars block left_chars blank hiding)
  then show ?case by (rule good_bouncing)
next
  case (wf_compound fs)
  then show ?case by (intro good_compound) auto
next
  case (wf_delayed f copies offset)
  then show ?case by (intro good_delayed)
qed

text \<open>
  Claim C8, as stated, fails. A compound factory over no factory has \<open>natural = 0\<close>; a
  scrolling factory over no character has \<open>natural = 0\<close>, and bound at no width it gives
  a spinner with \<open>cycles = 0\<close>.
\<close>

theorem builder_invariants_counterexample:
  "natural (compound_spinner_factory []) = 0
   \<and> natural (scrolling_spinner_factory [] None None None True True False) = 0
   \<and> (\<exists>s. inner_factory (scrolling_spinner_factory [] None None None True True False) None = Inr s
          \<and> cycles s = 0)"
  by (simp add: compound_spinner_factory_def scrolling_spinner_factory_def
      scrolling_inner_factory_def Let_def truthy_def or_int_def ratio_of_def block_size_of_def
      py_int_def)

text \<open>
  Claim C8, amended. For every well-formed factory (\<open>well_formed\<close> above), \<open>natural\<close> is
  at least 1, and every spinner obtained by binding it at no width or at a positive
  width has \<open>cycles\<close> at least 1 and yields, at every tick, a frame whose length is the
  bound width: the width given, or \<open>natural\<close> when none is given. (Binding a bouncing
  factory returns no spinner, so for it only \<open>natural\<close> is concerned.)
\<close>

theorem builder_invariants:
  "well_formed f \<Longrightarrow>
   1 \<le> natural f
   \<and> (\<forall>la s. (la = None \<or> (\<exists>w. la = Some w \<and> 0 < w)) \<and> inner_factory f la = Inr s \<longrightarrow>
         1 \<le> cycles s
         \<and> (\<forall>t. \<exists>fill. frame_at (spinner_player s) t = Some fill
                      \<and> int (length fill) = or_int la (natural f)))"
proof (intro conjI allI impI)
  assume "well_formed f"
  then have g: "good f" by (rule well_formed_good)
  then show "1 \<le> natural f" by (simp add: good_def)
  fix la s
  assume a: "(la = None \<or> (\<exists>w. la = Some w \<and> 0 < w)) \<and> inner_factory f la = Inr s"
  then have "width_ok la" by (auto simp add: width_ok_def)
  with g a have ok: "spinner_ok s" and c: "1 \<le> cycles s"
    and w: "int (frame_width s) = or_int la (natural f)"
    unfolding good_def by blast+
  show "1 \<le> cycles s" by (rule c)
  fix t
  from ok have "player_ok (spinner_player s)" by (simp add: spinner_player_def)
  from frame_at_ok[OF this, of t] w
  show "\<exists>fill. frame_at (spinner_player s) t = Some fill
                      \<and> int (length fill) = or_int la (natural f)"
    by (auto simp add: spinner_player_def)
qed

theorem builder_invariants_witness:
  "well_formed (compound_spinner_factory
       [scrolling_spinner_factory ''x'' (Some 5) None None True True False,
        scrolling_spinner_factory ''ab'' None None None False True False])
   \<and> 1 \<le> natural (compound_spinner_factory
       [scrolling_spinner_factory ''x'' (Some 5) None None True True False,
        scrolling_spinner_factory ''ab'' None None None False True False])
   \<and> (\<exists>s. inner_factory (compound_spinner_factory
       [scrolling_spinner_factory ''x'' (Some 5) None None True True False,
        scrolling_spinner_factory ''ab'' None None None False True False]) None = Inr s
      \<and> 1 \<le> cycles s
      \<and> (\<exists>fill. frame_at (spinner_player s) 2 = Some fill \<and> int (length fill) = 7))"
proof -
  let ?f1 = "scrolling_spinner_factory ''x'' (Some 5) None None True True False"
  let ?f2 = "scrolling_spinner_factory ''ab'' None None None False True False"
  let ?f = "compound_spinner_factory [?f1, ?f2]"
  have w1: "well_formed ?f1" by (intro wf_scrolling) simp_all
  have w2: "well_formed ?f2" by (intro wf_scrolling) simp_all
  have wf: "well_formed ?f" using w1 w2 by (intro wf_compound) simp_all
  have n: "natural ?f = 7"
    by (simp add: compound_spinner_factory_def scrolling_spinner_factory_def or_int_def)
  obtain s where b: "inner_factory ?f None = Inr s"
    by (simp add: compound_spinner_factory_def compound_inner_factory_def each_length_of_def
        scrolling_spinner_factory_def scrolling_inner_factory_def Let_def truthy_def
        longest_cycles_def)
  note bi = builder_invariants[OF wf]
  from bi have n1: "1 \<le> natural ?f" by (rule conjunct1)
  from bi[THEN conjunct2, rule_format, of None s] b
  have c: "1 \<le> cycles s"
    and fr: "\<And>t. \<exists>fill. frame_at (spinner_player s) t = Some fill
               \<and> int (length fill) = or_int None (natural ?f)"
    by simp_all
  from fr[of 2] n
  have "\<exists>fill. frame_at (spinner_player s) 2 = Some fill \<and> int (length fill) = 7"
    by (simp add: or_int_def)
  with n1 c
  have "1 \<le> natural ?f" and "1 \<le> cycles s"
    and "\<exists>fill. frame_at (spinner_player s) 2 = Some fill \<and> int (length fill) = 7"
    by simp_all
  with wf b show ?thesis by blast
qed

subsection \<open>Independence of spinners\<close>

lemma take_frames_frame_at:
  "take_frames n p = Some (fills, p') \<Longrightarrow>
   length fills = n \<and> discard n p = Some p' \<and> (\<forall>t<n. frame_at p t = Some (fills ! t))"
proof (induction n arbitrary: p fills)
  case 0
  then show ?case by simp
next
  case (Suc n)
  from Suc.prems obtain fill q rest where q: "player_next p = Some (fill, q)"
    and r: "take_frames n q = Some (rest, p')" and f: "fills = fill # rest"
    by (auto split: option.splits)
  from Suc.IH[OF r] have l: "length rest = n" and d: "discard n q = Some p'"
    and fr: "\<And>t. t < n \<Longrightarrow> frame_at q t = Some (rest ! t)" by auto
  have "frame_at p t = Some (fills ! t)" if "t < Suc n" for t
  proof (cases t)
    case 0
    then show ?thesis using q f by (simp add: frame_at_0 del: player_next.simps)
  next
    case (Suc u)
    with that fr[of u] show ?thesis using q f by (simp add: frame_at_Suc del: player_next.simps)
  qed
  then show ?case using l d q f by (simp del: player_next.simps)
qed

lemma interleave_take_frames:
  "interleave sched p q =
     (case take_frames (length (filter id sched)) p of
        None \<Rightarrow> None
      | Some r1 \<Rightarrow>
          (case take_frames (length (filter Not sched)) q of
             None \<Rightarrow> None
           | Some r2 \<Rightarrow> Some (r1, r2)))"
proof (induction sched arbitrary: p q)
  case Nil
  then show ?case by simp
next
  case (Cons b bs)
  show ?case
    by (cases b) (auto simp add: Cons.IH simp del: player_next.simps split: option.splits)
qed

text \<open>
  Claim C9. Binding is a function of the factory and the width: two binds at the same
  width return the same spinner, whose players yield the same frame at every tick. Every
  mutable object of a spinner (its ribbon, its players) is created by the bind that
  returns it, so the state of two spinners is a pair of values: however the reads of two
  players are interleaved, each yields exactly the frames it yields when read alone
  (and the interleaved reads hang exactly when one of the two hangs alone).
\<close>

theorem instances_independent:
  "(\<forall>s1 s2. inner_factory f la = Inr s1 \<and> inner_factory f la = Inr s2 \<longrightarrow>
       s1 = s2
     \<and> (\<forall>t. frame_at (spinner_player s1) t = frame_at (spinner_player s2) t)
     \<and> interleave sched (spinner_player s1) (spinner_player s2) =
         (case take_frames (length (filter id sched)) (spinner_player s1) of
            None \<Rightarrow> None
          | Some r1 \<Rightarrow>
              (case take_frames (length (filter Not sched)) (spinner_player s1) of
                 None \<Rightarrow> None
               | Some r2 \<Rightarrow> Some (r1, r2))))
   \<and> (\<forall>fills p'. take_frames n p = Some (fills, p') \<longrightarrow>
         length fills = n \<and> (\<forall>t<n. frame_at p t = Some (fills ! t)))"
proof (intro conjI allI impI)
  fix s1 s2
  assume a: "inner_factory f la = Inr s1 \<and> inner_factory f la = Inr s2"
  then have e: "s1 = s2" by auto
  then show "s1 = s2" .
  from e
  show "frame_at (spinner_player s1) t = frame_at (spinner_player s2) t" for t by simp
  from e show "interleave sched (spinner_player s1) (spinner_player s2) =
         (case take_frames (length (filter id sched)) (spinner_player s1) of
            None \<Rightarrow> None
          | Some r1 \<Rightarrow>
              (case take_frames (length (filter Not sched)) (spinner_player s1) of
                 None \<Rightarrow> None
               | Some r2 \<Rightarrow> Some (r1, r2)))"
    by (simp only: interleave_take_frames)
next
  fix fills p'
  assume "take_frames n p = Some (fills, p')"
  from take_frames_frame_at[OF this] show "length fills = n" by simp
next
  fix fills p' t
  assume "take_frames n p = Some (fills, p')" and "t < n"
  with take_frames_frame_at[of n p fills p'] show "frame_at p t = Some (fills ! t)" by simp
qed

theorem instances_independent_witness:
  "(\<exists>s. inner_factory (scrolling_spinner_factory ''x'' (Some 5) None None True True False) None
          = Inr s
      \<and> map_option (\<lambda>((a, p), (b, q)). (a, b))
          (interleave [True, False, True] (spinner_player s) (spinner_player s))
          = Some ([''     '', ''x    ''], [''     '']))"
proof -
  let ?rb = "\<lparr>rb_overlay = False, rb_background = '' '', rb_gap = 5, rb_contents = [''x''],
      rb_length = 5, rb_step = - 1, rb_cursor = 0\<rparr>"
  let ?s = "ScrollI ?rb 6"
  let ?f = "scrolling_spinner_factory ''x'' (Some 5) None None True True False"
  have b: "inner_factory ?f None = Inr ?s" by (rule scrolling_x5_bind)
  have t2: "map_option fst (take_frames 2 (spinner_player ?s)) = Some [''     '', ''x    '']"
    by (simp add: numeral_2_eq_2 spinner_player_def ribbon_next_def window_def tape_def Let_def
        background_cell_def upt_rec)
  have t1: "map_option fst (take_frames 1 (spinner_player ?s)) = Some [''     '']"
    by (simp add: spinner_player_def ribbon_next_def window_def tape_def Let_def
        background_cell_def upt_rec)
  have l1: "length (filter id [True, False, True]) = 2" by simp
  have l2: "length (filter Not [True, False, True]) = 1" by simp
  note ii = instances_independent[of ?f None "[True, False, True]" 0 "spinner_player ?s",
      THEN conjunct1, rule_format, OF conjI[OF b b], THEN conjunct2, THEN conjunct2]
  have "interleave [True, False, True] (spinner_player ?s) (spinner_player ?s) =
         (case take_frames 2 (spinner_player ?s) of
            None \<Rightarrow> None
          | Some r1 \<Rightarrow>
              (case take_frames 1 (spinner_player ?s) of
                 None \<Rightarrow> None
               | Some r2 \<Rightarrow> Some (r1, r2)))"
    using ii unfolding l1 l2 .
  with t1 t2 have "map_option (\<lambda>((a, p), (b, q)). (a, b))
          (interleave [True, False, True] (spinner_player ?s) (spinner_player ?s))
          = Some ([''     '', ''x    ''], [''     ''])"
    by (auto simp del: take_frames.simps interleave.simps split: option.splits)
  with b show ?thesis by blast
qed

text \<open>
  Claim C10. A compound factory over no factory has \<open>natural = 0\<close>, and binding it
  raises: ZeroDivisionError (line 140) when a width is given, ValueError (\<^verbatim>\<open>max\<close> of an
  empty list, line 143) otherwise. No spinner is ever returned.
\<close>

theorem compound_empty:
  "natural (compound_spinner_factory []) = 0
   \<and> inner_factory (compound_spinner_factory []) length_actual
       = Inl (if truthy length_actual then ZeroDivisionError else ValueError)
   \<and> (\<nexists>s. inner_factory (compound_spinner_factory []) length_actual = Inr s)"
  by (auto simp add: compound_spinner_factory_def compound_inner_factory_def each_length_of_def
      longest_cycles_def truthy_def split: option.splits)

end
